theory Spec2Isabelle
  imports Main
begin

section \<open>Data model of \<^verbatim>\<open>app.py\<close>\<close>

text \<open>
  The two dataclasses of the source. Python integers are unbounded, so
  \<^verbatim>\<open>daily_limit\<close> and \<^verbatim>\<open>current_count\<close> are of type \<open>int\<close>; nothing in the source
  forces them to be positive.
\<close>

record Account =
  username :: string
  password :: string
  api_token :: string
  daily_limit :: int
  current_count :: int
  last_reset :: string

record URLResult =
  original_url :: string
  short_url :: string
  account_used :: string
  timestamp :: string
  success :: bool
  error_message :: string

text \<open>
  The state of a \<^verbatim>\<open>BitlyAPIManager\<close>. The account objects are the elements of the list;
  a reference to an account object is its position in the list (\<^verbatim>\<open>load_accounts_from_csv\<close>
  builds one fresh object per row, so no object occurs twice). The constant
  \<^verbatim>\<open>base_url\<close> is not state and is left out.
\<close>

record BitlyAPIManager =
  accounts :: "Account list"
  current_account_index :: nat

datatype py_error = IndexError

subsection \<open>The world outside the process\<close>

text \<open>
  \<^verbatim>\<open>datetime.now()\<close> and \<^verbatim>\<open>requests.post\<close> are inputs from outside. A world holds
  what the clock shows at its \<open>k\<close>-th reading and what the upstream answers to its \<open>k\<close>-th
  call, together with the number of readings and calls made so far.

  A reading of the clock is seen by the source only through \<^verbatim>\<open>strftime('%Y-%m-%d')\<close>
  and \<^verbatim>\<open>isoformat()\<close>; these are the two fields of \<open>datetime\<close>.

  An upstream call either raises (\<open>Raised\<close>, with \<^verbatim>\<open>str(e)\<close>) or returns a response with
  a status code. The body of a response is seen by the source only through
  \<^verbatim>\<open>response.json()\<close> followed by \<^verbatim>\<open>result['link']\<close>: \<open>NotJson\<close> is a body on which
  \<^verbatim>\<open>json()\<close> raises, \<open>NoLink\<close> a body that parses but on which \<^verbatim>\<open>['link']\<close> raises
  (each with the \<^verbatim>\<open>str(e)\<close> of the exception), \<open>Link\<close> a body with that link.
\<close>

record datetime =
  ymd :: string
  isoformat :: string

datatype payload = NotJson string | NoLink string | Link string

datatype reply = Raised string | Response int payload

record world =
  clock :: "nat \<Rightarrow> datetime"
  ticks :: nat
  upstream :: "nat \<Rightarrow> string \<Rightarrow> string \<Rightarrow> reply"
  calls :: nat

definition now :: "world \<Rightarrow> datetime \<times> world" where
  "now w = (clock w (ticks w), w\<lparr>ticks := Suc (ticks w)\<rparr>)"

text \<open>\<^verbatim>\<open>requests.post\<close> with the bearer token and the long URL of the request.\<close>

definition post :: "world \<Rightarrow> string \<Rightarrow> string \<Rightarrow> reply \<times> world" where
  "post w token long_url = (upstream w (calls w) token long_url, w\<lparr>calls := Suc (calls w)\<rparr>)"

subsection \<open>Decimal rendering of integers\<close>

text \<open>The \<^verbatim>\<open>{response.status_code}\<close> of the f-string.\<close>

definition digit_char :: "nat \<Rightarrow> char" where
  "digit_char d = char_of (48 + d)"

function str_nat :: "nat \<Rightarrow> string" where
  "str_nat n = (if n < 10 then [digit_char n] else str_nat (n div 10) @ [digit_char (n mod 10)])"
  by pat_completeness auto
termination
  by (relation "measure id") auto

definition str_int :: "int \<Rightarrow> string" where
  "str_int i = (if i < 0 then CHR ''-'' # str_nat (nat (- i)) else str_nat (nat i))"

section \<open>The account pool\<close>

definition BitlyAPIManager_init :: "Account list \<Rightarrow> BitlyAPIManager" where
  "BitlyAPIManager_init accs = \<lparr>accounts = accs, current_account_index = 0\<rparr>"

text \<open>
  Lines 128--130 of the loop body (the reset at a new date) and the test of line 132.
\<close>

definition lazy_reset :: "string \<Rightarrow> Account \<Rightarrow> Account" where
  "lazy_reset today account =
     (if last_reset account \<noteq> today
      then account\<lparr>current_count := 0, last_reset := today\<rparr>
      else account)"

definition eligible :: "Account \<Rightarrow> bool" where
  "eligible account \<longleftrightarrow> current_count account < daily_limit account \<and> api_token account \<noteq> []"

text \<open>
  The loop of \<^verbatim>\<open>_get_available_account\<close>; the first argument is the number of iterations
  of \<^verbatim>\<open>for _ in range(len(self.accounts))\<close> still to run. The result is the position of the
  returned account object, or \<open>None\<close>. Reading \<^verbatim>\<open>self.accounts[...]\<close> out of range raises.
\<close>

fun select_loop ::
  "nat \<Rightarrow> BitlyAPIManager \<Rightarrow> world \<Rightarrow> py_error + (nat option \<times> BitlyAPIManager \<times> world)" where
  "select_loop 0 m w = Inr (None, m, w)"
| "select_loop (Suc k) m w =
     (let i = current_account_index m in
      if length (accounts m) \<le> i then Inl IndexError
      else
        let account = accounts m ! i;
            m1 = m\<lparr>current_account_index := (i + 1) mod length (accounts m)\<rparr>;
            (dt, w1) = now w;
            account' = lazy_reset (ymd dt) account;
            m2 = m1\<lparr>accounts := (accounts m1)[i := account']\<rparr>
        in if eligible account' then Inr (Some i, m2, w1)
           else select_loop k m2 w1)"

definition get_available_account ::
  "BitlyAPIManager \<Rightarrow> world \<Rightarrow> py_error + (nat option \<times> BitlyAPIManager \<times> world)" where
  "get_available_account m w =
     (if accounts m = [] then Inr (None, m, w)
      else select_loop (length (accounts m)) m w)"

section \<open>The dispatcher\<close>

definition max_retries :: nat where
  "max_retries = 3"

definition failure :: "string \<Rightarrow> string \<Rightarrow> string \<Rightarrow> string \<Rightarrow> URLResult" where
  "failure long_url used ts msg =
     \<lparr>original_url = long_url, short_url = [], account_used = used, timestamp = ts,
      success = False, error_message = msg\<rparr>"

text \<open>
  The \<^verbatim>\<open>except Exception\<close> handler of \<^verbatim>\<open>shorten_url\<close>, as a function of what the
  loop does next: it is given the rest of the loop as \<open>continue\<close>.
\<close>

definition on_exception ::
  "nat \<Rightarrow> string \<Rightarrow> string \<Rightarrow> string \<Rightarrow> BitlyAPIManager \<Rightarrow> world \<Rightarrow>
   (py_error + (URLResult \<times> BitlyAPIManager \<times> world)) \<Rightarrow>
   py_error + (URLResult \<times> BitlyAPIManager \<times> world)" where
  "on_exception attempt long_url user e m w continue =
     (if attempt < max_retries - 1 then continue
      else let (dt, w') = now w in Inr (failure long_url user (isoformat dt) e, m, w'))"

text \<open>Line 69, \<^verbatim>\<open>account.current_count += 1\<close>, on the account object at position \<open>i\<close>.\<close>

definition increment :: "nat \<Rightarrow> BitlyAPIManager \<Rightarrow> BitlyAPIManager" where
  "increment i m =
     m\<lparr>accounts := (accounts m)
          [i := (accounts m ! i)\<lparr>current_count := current_count (accounts m ! i) + 1\<rparr>]\<rparr>"

text \<open>
  The loop of \<^verbatim>\<open>shorten_url\<close> over the attempt numbers still to run; the empty list is
  the code after the loop. The counter is incremented before \<^verbatim>\<open>result['link']\<close> is
  evaluated (line 69 before line 70), so on a \<open>NoLink\<close> body the exception handler runs
  with the counter already incremented.
\<close>

fun shorten_loop ::
  "nat list \<Rightarrow> string \<Rightarrow> BitlyAPIManager \<Rightarrow> world \<Rightarrow>
   py_error + (URLResult \<times> BitlyAPIManager \<times> world)" where
  "shorten_loop [] long_url m w =
     (let (dt, w') = now w
      in Inr (failure long_url [] (isoformat dt) ''Max retries exceeded'', m, w'))"
| "shorten_loop (attempt # rest) long_url m w =
     (case get_available_account m w of
        Inl err \<Rightarrow> Inl err
      | Inr (None, m1, w1) \<Rightarrow>
          (let (dt, w2) = now w1
           in Inr (failure long_url [] (isoformat dt) ''No available accounts'', m1, w2))
      | Inr (Some i, m1, w1) \<Rightarrow>
          (let account = accounts m1 ! i;
               (rep, w2) = post w1 (api_token account) long_url
           in case rep of
                Raised e \<Rightarrow>
                  on_exception attempt long_url (username account) e m1 w2
                    (shorten_loop rest long_url m1 w2)
              | Response status_code body \<Rightarrow>
                  if status_code = 200 \<or> status_code = 201 then
                    (case body of
                       NotJson e \<Rightarrow>
                         on_exception attempt long_url (username account) e m1 w2
                           (shorten_loop rest long_url m1 w2)
                     | NoLink e \<Rightarrow>
                         (let m2 = increment i m1
                          in on_exception attempt long_url (username account) e m2 w2
                               (shorten_loop rest long_url m2 w2))
                     | Link link \<Rightarrow>
                         (let m2 = increment i m1;
                              (dt, w3) = now w2
                          in Inr (\<lparr>original_url = long_url, short_url = link,
                                   account_used = username account, timestamp = isoformat dt,
                                   success = True, error_message = []\<rparr>, m2, w3)))
                  else if status_code = 429 then shorten_loop rest long_url m1 w2
                  else if attempt < max_retries - 1 then shorten_loop rest long_url m1 w2
                  else
                    (let error_msg = ''API Error: '' @ str_int status_code;
                         (dt, w3) = now w2
                     in Inr (failure long_url (username account) (isoformat dt) error_msg, m1, w3))))"

definition shorten_url ::
  "BitlyAPIManager \<Rightarrow> string \<Rightarrow> world \<Rightarrow> py_error + (URLResult \<times> BitlyAPIManager \<times> world)" where
  "shorten_url m long_url w = shorten_loop [0..<max_retries] long_url m w"

section \<open>The bulk route\<close>

text \<open>
  \<^verbatim>\<open>str.strip()\<close> removes the characters on which \<^verbatim>\<open>str.isspace()\<close> holds from both ends.
  A \<open>char\<close> stands for a code point below 256; the white space there is U+0009--U+000D,
  U+001C--U+0020, U+0085 and U+00A0.
\<close>

definition isspace :: "char \<Rightarrow> bool" where
  "isspace c \<longleftrightarrow> (of_char c :: nat) \<in> {9, 10, 11, 12, 13, 28, 29, 30, 31, 32, 133, 160}"

definition strip :: "string \<Rightarrow> string" where
  "strip s = rev (dropWhile isspace (rev (dropWhile isspace s)))"

definition startswith :: "string \<Rightarrow> string \<Rightarrow> bool" where
  "startswith s p \<longleftrightarrow> take (length p) s = p"

text \<open>Lines 227--229 (and 192--198): what a route does to a URL before \<^verbatim>\<open>shorten_url\<close>.\<close>

definition normalize_url :: "string \<Rightarrow> string" where
  "normalize_url url =
     (let url = strip url
      in if \<not> (startswith url ''http://'' \<or> startswith url ''https://'')
         then ''https://'' @ url else url)"

text \<open>The dictionary appended to \<^verbatim>\<open>results\<close> for one URL; \<open>None\<close> is Python's \<^verbatim>\<open>None\<close>.\<close>

record result_json =
  j_success :: bool
  j_original_url :: string
  j_short_url :: string
  j_account_used :: string
  j_error :: "string option"

definition to_json :: "URLResult \<Rightarrow> result_json" where
  "to_json result =
     \<lparr>j_success = success result, j_original_url = original_url result,
      j_short_url = short_url result, j_account_used = account_used result,
      j_error = (if \<not> success result then Some (error_message result) else None)\<rparr>"

text \<open>The \<^verbatim>\<open>for url in urls\<close> loop of \<^verbatim>\<open>shorten_bulk\<close>; an exception leaves the loop.\<close>

fun bulk_loop ::
  "string list \<Rightarrow> BitlyAPIManager \<Rightarrow> world \<Rightarrow>
   py_error + (result_json list \<times> BitlyAPIManager \<times> world)" where
  "bulk_loop [] m w = Inr ([], m, w)"
| "bulk_loop (url # urls) m w =
     (case shorten_url m (normalize_url url) w of
        Inl err \<Rightarrow> Inl err
      | Inr (result, m1, w1) \<Rightarrow>
          (case bulk_loop urls m1 w1 of
             Inl err \<Rightarrow> Inl err
           | Inr (results, m2, w2) \<Rightarrow> Inr (to_json result # results, m2, w2)))"

record bulk_body =
  b_total :: int
  b_successful :: int
  b_failed :: int
  b_results :: "result_json list"

text \<open>
  What a route returns: \<open>Error msg status\<close> is \<^verbatim>\<open>{"success": False, "error": msg}\<close> with
  that HTTP status, \<open>Ok body\<close> is \<^verbatim>\<open>{"success": True, ...}\<close> with status 200.
\<close>

datatype response = Error string nat | Ok bulk_body

fun str_error :: "py_error \<Rightarrow> string" where
  "str_error IndexError = ''list index out of range''"

text \<open>
  The route \<^verbatim>\<open>/api/shorten-bulk\<close>, from the list under \<^verbatim>\<open>'urls'\<close> of the request body
  (the empty list when the key is missing). The module creates \<^verbatim>\<open>api_manager\<close> only for
  a non-empty account list, so \<^verbatim>\<open>not api_manager or not accounts\<close> is the test that the
  pool is empty. The only exception of the model arises at the first lookup of the first
  call, before anything is mutated (lemma \<open>bulk_loop_Inl\<close> below), so the state at the
  handler is the state at entry.
\<close>

definition shorten_bulk ::
  "BitlyAPIManager \<Rightarrow> string list \<Rightarrow> world \<Rightarrow> response \<times> BitlyAPIManager \<times> world" where
  "shorten_bulk m urls w =
     (if accounts m = [] then (Error ''No accounts configured'' 500, m, w)
      else if urls = [] then (Error ''URLs required'' 400, m, w)
      else
        (case bulk_loop urls m w of
           Inl err \<Rightarrow> (Error (str_error err) 500, m, w)
         | Inr (results, m', w') \<Rightarrow>
             (let successful = int (length (filter j_success results))
              in (Ok \<lparr>b_total = int (length results), b_successful = successful,
                        b_failed = int (length results) - successful, b_results = results\<rparr>,
                  m', w'))))"

section \<open>Notions used in the statements\<close>



text \<open>The position the cursor has just passed: that of the account examined last.\<close>

definition last_examined :: "BitlyAPIManager \<Rightarrow> nat" where
  "last_examined m =
     (current_account_index m + length (accounts m) - 1) mod length (accounts m)"

text \<open>
  The pool states a process can be in: the state after construction, and every state left
  by a call of \<^verbatim>\<open>_get_available_account\<close> or \<^verbatim>\<open>shorten_url\<close> that returns, in any world.
\<close>

inductive reachable :: "BitlyAPIManager \<Rightarrow> bool" where
  init: "reachable (BitlyAPIManager_init accs)"
| select: "reachable m \<Longrightarrow> get_available_account m w = Inr (r, m', w') \<Longrightarrow> reachable m'"
| shorten: "reachable m \<Longrightarrow> shorten_url m long_url w = Inr (res, m', w') \<Longrightarrow> reachable m'"

subsection \<open>Concrete pools and worlds\<close>

definition noon :: "nat \<Rightarrow> datetime" where
  "noon t = \<lparr>ymd = ''2024-01-02'', isoformat = ''2024-01-02T12:00:00''\<rparr>"

definition stub :: "(nat \<Rightarrow> string \<Rightarrow> string \<Rightarrow> reply) \<Rightarrow> world" where
  "stub up = \<lparr>clock = noon, ticks = 0, upstream = up, calls = 0\<rparr>"

definition always :: "reply \<Rightarrow> nat \<Rightarrow> string \<Rightarrow> string \<Rightarrow> reply" where
  "always rep k token long_url = rep"

text \<open>The \<^verbatim>\<open>str(e)\<close> of the \<^verbatim>\<open>KeyError\<close> that \<^verbatim>\<open>result['link']\<close> raises on \<^verbatim>\<open>{}\<close>.\<close>

definition key_error_link :: string where
  "key_error_link = CHR 0x27 # ''link'' @ [CHR 0x27]"

text \<open>An upstream that answers 500 for one URL and 201 with a link for every other.\<close>

definition flaky :: "nat \<Rightarrow> string \<Rightarrow> string \<Rightarrow> reply" where
  "flaky k token long_url =
     (if long_url = ''https://bad.example'' then Response 500 (NotJson [])
      else Response 201 (Link ''https://bit.ly/abc''))"

definition alice :: Account where
  "alice = \<lparr>username = ''alice'', password = [], api_token = ''token-a'',
            daily_limit = 5, current_count = 0, last_reset = ''2024-01-02''\<rparr>"

definition bob :: Account where
  "bob = \<lparr>username = ''bob'', password = [], api_token = ''token-b'',
          daily_limit = 5, current_count = 5, last_reset = ''2024-01-01''\<rparr>"

definition dave :: Account where
  "dave = \<lparr>username = ''dave'', password = [], api_token = [],
           daily_limit = 5, current_count = 3, last_reset = ''2024-01-01''\<rparr>"

definition carol :: Account where
  "carol = \<lparr>username = ''carol'', password = [], api_token = ''token-c'',
            daily_limit = 2, current_count = 2, last_reset = ''2024-01-02''\<rparr>"

section \<open>The selection loop\<close>

lemma mod_shift_neq:
  fixes c :: nat
  assumes "c < n" "0 < d" "d < n"
  shows "(c + d) mod n \<noteq> c"
proof (cases "c + d < n")
  case True
  with assms show ?thesis by simp
next
  case False
  with assms have "(c + d) mod n = c + d - n"
    by (simp add: le_mod_geq)
  with assms False show ?thesis by simp
qed

lemma select_loop_Inr:
  "current_account_index m < length (accounts m) \<Longrightarrow>
   \<exists>r m' w'. select_loop k m w = Inr (r, m', w')"
proof (induction k arbitrary: m w)
  case 0
  show ?case by simp
next
  case (Suc k)
  let ?i = "current_account_index m"
  let ?a = "lazy_reset (ymd (clock w (ticks w))) (accounts m ! ?i)"
  let ?m2 = "m\<lparr>current_account_index := (?i + 1) mod length (accounts m),
               accounts := (accounts m)[?i := ?a]\<rparr>"
  from Suc.prems have "0 < length (accounts m)"
    by arith
  then have "current_account_index ?m2 < length (accounts ?m2)"
    by simp
  from Suc.IH [OF this] Suc.prems show ?case
    by (simp add: Let_def now_def)
qed

lemma select_loop_frame:
  "select_loop k m w = Inr (r, m', w') \<Longrightarrow>
   w' = w\<lparr>ticks := ticks w'\<rparr> \<and> ticks w \<le> ticks w' \<and> ticks w' \<le> ticks w + k \<and>
   length (accounts m') = length (accounts m)"
proof (induction k arbitrary: m w)
  case 0
  then show ?case by simp
next
  case (Suc k)
  let ?i = "current_account_index m"
  let ?a = "lazy_reset (ymd (clock w (ticks w))) (accounts m ! ?i)"
  let ?m2 = "m\<lparr>current_account_index := (?i + 1) mod length (accounts m),
               accounts := (accounts m)[?i := ?a]\<rparr>"
  let ?w1 = "w\<lparr>ticks := Suc (ticks w)\<rparr>"
  from Suc.prems have in_range: "?i < length (accounts m)"
    by (simp add: Let_def split: if_splits)
  show ?case
  proof (cases "eligible ?a")
    case True
    with Suc.prems in_range show ?thesis
      by (auto simp: Let_def now_def)
  next
    case False
    with Suc.prems in_range have "select_loop k ?m2 ?w1 = Inr (r, m', w')"
      by (simp add: Let_def now_def)
    from Suc.IH [OF this] show ?thesis
      by simp
  qed
qed

lemma select_loop_ticks:
  "select_loop k m w = Inr (r, m', w') \<Longrightarrow> ticks w \<le> ticks w' \<and> ticks w' \<le> ticks w + k"
  by (drule select_loop_frame) (elim conjE, intro conjI)

lemma select_loop_length:
  "select_loop k m w = Inr (r, m', w') \<Longrightarrow> length (accounts m') = length (accounts m)"
  by (drule select_loop_frame) (elim conjE)

lemma select_loop_world:
  "select_loop k m w = Inr (r, m', w') \<Longrightarrow> w' = w\<lparr>ticks := ticks w'\<rparr>"
  by (drule select_loop_frame) (elim conjE)

lemma select_loop_cursor:
  "select_loop k m w = Inr (r, m', w') \<Longrightarrow> current_account_index m < length (accounts m) \<Longrightarrow>
   current_account_index m' =
     (current_account_index m + (ticks w' - ticks w)) mod length (accounts m)"
proof (induction k arbitrary: m w)
  case 0
  then show ?case by simp
next
  case (Suc k)
  let ?n = "length (accounts m)"
  let ?i = "current_account_index m"
  let ?a = "lazy_reset (ymd (clock w (ticks w))) (accounts m ! ?i)"
  let ?m2 = "m\<lparr>current_account_index := (?i + 1) mod ?n,
               accounts := (accounts m)[?i := ?a]\<rparr>"
  let ?w1 = "w\<lparr>ticks := Suc (ticks w)\<rparr>"
  show ?case
  proof (cases "eligible ?a")
    case True
    with Suc.prems show ?thesis
      by (auto simp: Let_def now_def)
  next
    case False
    with Suc.prems have rec: "select_loop k ?m2 ?w1 = Inr (r, m', w')"
      by (simp add: Let_def now_def)
    from Suc.prems have "0 < ?n"
      by arith
    then have "current_account_index ?m2 < length (accounts ?m2)"
      by simp
    from Suc.IH [OF rec this] have
      "current_account_index m' = ((?i + 1) mod ?n + (ticks w' - Suc (ticks w))) mod ?n"
      by simp
    also have "\<dots> = (?i + 1 + (ticks w' - Suc (ticks w))) mod ?n"
      by (simp add: mod_add_left_eq)
    finally have eq: "current_account_index m' = (?i + 1 + (ticks w' - Suc (ticks w))) mod ?n" .
    from select_loop_ticks [OF rec] have "Suc (ticks w) \<le> ticks w'"
      by simp
    then have "?i + 1 + (ticks w' - Suc (ticks w)) = ?i + (ticks w' - ticks w)"
      by arith
    with eq show ?thesis
      by (simp only:)
  qed
qed

lemma select_loop_None:
  "select_loop k m w = Inr (None, m', w') \<Longrightarrow> ticks w' = ticks w + k"
proof (induction k arbitrary: m w)
  case 0
  then show ?case by simp
next
  case (Suc k)
  let ?i = "current_account_index m"
  let ?a = "lazy_reset (ymd (clock w (ticks w))) (accounts m ! ?i)"
  let ?m2 = "m\<lparr>current_account_index := (?i + 1) mod length (accounts m),
               accounts := (accounts m)[?i := ?a]\<rparr>"
  let ?w1 = "w\<lparr>ticks := Suc (ticks w)\<rparr>"
  from Suc.prems have "select_loop k ?m2 ?w1 = Inr (None, m', w')"
    by (simp add: Let_def now_def split: if_splits)
  from Suc.IH [OF this] show ?case
    by simp
qed

lemma select_loop_Some:
  "select_loop k m w = Inr (Some p, m', w') \<Longrightarrow>
   ticks w < ticks w' \<and> p < length (accounts m) \<and>
   p = (current_account_index m + (ticks w' - Suc (ticks w))) mod length (accounts m) \<and>
   eligible (accounts m' ! p)"
proof (induction k arbitrary: m w)
  case 0
  then show ?case by simp
next
  case (Suc k)
  let ?n = "length (accounts m)"
  let ?i = "current_account_index m"
  let ?a = "lazy_reset (ymd (clock w (ticks w))) (accounts m ! ?i)"
  let ?m2 = "m\<lparr>current_account_index := (?i + 1) mod ?n,
               accounts := (accounts m)[?i := ?a]\<rparr>"
  let ?w1 = "w\<lparr>ticks := Suc (ticks w)\<rparr>"
  from Suc.prems have in_range: "?i < ?n"
    by (simp add: Let_def split: if_splits)
  show ?case
  proof (cases "eligible ?a")
    case True
    with Suc.prems in_range show ?thesis
      by (auto simp: Let_def now_def)
  next
    case False
    with Suc.prems in_range have rec: "select_loop k ?m2 ?w1 = Inr (Some p, m', w')"
      by (simp add: Let_def now_def)
    note ih = Suc.IH [OF rec]
    from ih [THEN conjunct1] have lt: "Suc (ticks w) < ticks w'"
      by simp
    from ih [THEN conjunct2, THEN conjunct1] have p: "p < ?n"
      by simp
    from ih [THEN conjunct2, THEN conjunct2, THEN conjunct1]
    have "p = ((?i + 1) mod ?n + (ticks w' - Suc (Suc (ticks w)))) mod ?n"
      by simp
    also have "\<dots> = (?i + 1 + (ticks w' - Suc (Suc (ticks w)))) mod ?n"
      by (simp add: mod_add_left_eq)
    also from lt have "?i + 1 + (ticks w' - Suc (Suc (ticks w))) = ?i + (ticks w' - Suc (ticks w))"
      by simp
    finally have pos: "p = (?i + (ticks w' - Suc (ticks w))) mod ?n" .
    from ih [THEN conjunct2, THEN conjunct2, THEN conjunct2] lt p pos show ?thesis
      by simp
  qed
qed

lemma select_loop_untouched:
  "select_loop k m w = Inr (r, m', w') \<Longrightarrow> q < length (accounts m) \<Longrightarrow>
   \<forall>j < ticks w' - ticks w. q \<noteq> (current_account_index m + j) mod length (accounts m) \<Longrightarrow>
   accounts m' ! q = accounts m ! q"
proof (induction k arbitrary: m w)
  case 0
  then show ?case by simp
next
  case (Suc k)
  let ?n = "length (accounts m)"
  let ?i = "current_account_index m"
  let ?a = "lazy_reset (ymd (clock w (ticks w))) (accounts m ! ?i)"
  let ?m2 = "m\<lparr>current_account_index := (?i + 1) mod ?n,
               accounts := (accounts m)[?i := ?a]\<rparr>"
  let ?w1 = "w\<lparr>ticks := Suc (ticks w)\<rparr>"
  from Suc.prems(1) have in_range: "?i < ?n"
    by (simp add: Let_def split: if_splits)
  have first: "ticks w < ticks w'"
  proof (cases "eligible ?a")
    case True
    with Suc.prems(1) in_range show ?thesis
      by (auto simp: Let_def now_def)
  next
    case False
    with Suc.prems(1) in_range have "select_loop k ?m2 ?w1 = Inr (r, m', w')"
      by (simp add: Let_def now_def)
    from select_loop_ticks [OF this] show ?thesis
      by simp
  qed
  with Suc.prems(3) have "q \<noteq> (?i + 0) mod ?n"
    by (metis zero_less_diff)
  with in_range have neq: "q \<noteq> ?i"
    by simp
  show ?case
  proof (cases "eligible ?a")
    case True
    with Suc.prems(1) in_range neq show ?thesis
      by (auto simp: Let_def now_def)
  next
    case False
    with Suc.prems(1) in_range have rec: "select_loop k ?m2 ?w1 = Inr (r, m', w')"
      by (simp add: Let_def now_def)
    have "\<forall>j < ticks w' - ticks ?w1. q \<noteq> (current_account_index ?m2 + j) mod length (accounts ?m2)"
    proof (intro allI impI)
      fix j
      assume "j < ticks w' - ticks ?w1"
      then have "Suc j < ticks w' - ticks w"
        by simp
      with Suc.prems(3) have "q \<noteq> (?i + Suc j) mod ?n"
        by blast
      moreover have "((?i + 1) mod ?n + j) mod ?n = (?i + Suc j) mod ?n"
        by (simp add: mod_add_left_eq)
      ultimately show "q \<noteq> (current_account_index ?m2 + j) mod length (accounts ?m2)"
        by simp
    qed
    with Suc.IH [OF rec] Suc.prems(2) have "accounts m' ! q = accounts ?m2 ! q"
      by simp
    with neq show ?thesis
      by simp
  qed
qed

lemma select_loop_examined:
  "select_loop k m w = Inr (r, m', w') \<Longrightarrow> k \<le> length (accounts m) \<Longrightarrow>
   j < ticks w' - ticks w \<Longrightarrow>
   accounts m' ! ((current_account_index m + j) mod length (accounts m)) =
     lazy_reset (ymd (clock w (ticks w + j)))
       (accounts m ! ((current_account_index m + j) mod length (accounts m)))"
proof (induction k arbitrary: m w j)
  case 0
  then show ?case by simp
next
  case (Suc k)
  let ?n = "length (accounts m)"
  let ?i = "current_account_index m"
  let ?a = "lazy_reset (ymd (clock w (ticks w))) (accounts m ! ?i)"
  let ?m2 = "m\<lparr>current_account_index := (?i + 1) mod ?n,
               accounts := (accounts m)[?i := ?a]\<rparr>"
  let ?w1 = "w\<lparr>ticks := Suc (ticks w)\<rparr>"
  from Suc.prems(1) have in_range: "?i < ?n"
    by (simp add: Let_def split: if_splits)
  show ?case
  proof (cases "eligible ?a")
    case True
    with Suc.prems(1) in_range have "m' = ?m2" "w' = ?w1"
      by (auto simp: Let_def now_def)
    with Suc.prems(3) in_range show ?thesis
      by simp
  next
    case False
    with Suc.prems(1) in_range have rec: "select_loop k ?m2 ?w1 = Inr (r, m', w')"
      by (simp add: Let_def now_def)
    from select_loop_ticks [OF rec] have bound: "ticks w' - ticks ?w1 \<le> k"
      by (simp; arith)
    from Suc.prems(2) have k: "k < ?n"
      by simp
    show ?thesis
    proof (cases j)
      case 0
      have "\<forall>d < ticks w' - ticks ?w1. ?i \<noteq> (current_account_index ?m2 + d) mod length (accounts ?m2)"
      proof (intro allI impI)
        fix d
        assume "d < ticks w' - ticks ?w1"
        with bound k have "Suc d < ?n"
          by simp
        with in_range have "(?i + Suc d) mod ?n \<noteq> ?i"
          by (intro mod_shift_neq) simp_all
        moreover have "((?i + 1) mod ?n + d) mod ?n = (?i + Suc d) mod ?n"
          by (simp add: mod_add_left_eq)
        ultimately show "?i \<noteq> (current_account_index ?m2 + d) mod length (accounts ?m2)"
          by simp
      qed
      with select_loop_untouched [OF rec, of ?i] in_range have "accounts m' ! ?i = accounts ?m2 ! ?i"
        by simp
      with 0 in_range show ?thesis
        by simp
    next
      case (Suc j')
      with Suc.prems(3) have j': "j' < ticks w' - ticks ?w1"
        by simp
      with bound k have "Suc j' < ?n"
        by simp
      with in_range have neq: "(?i + Suc j') mod ?n \<noteq> ?i"
        by (intro mod_shift_neq) simp_all
      have shift: "((?i + 1) mod ?n + j') mod ?n = (?i + Suc j') mod ?n"
        by (simp add: mod_add_left_eq)
      from k have "k \<le> length (accounts ?m2)"
        by simp
      from Suc.IH [OF rec this j'] shift neq Suc show ?thesis
        by simp
    qed
  qed
qed

lemma select_loop_usernames:
  "select_loop k m w = Inr (r, m', w') \<Longrightarrow>
   map username (accounts m') = map username (accounts m)"
proof (induction k arbitrary: m w)
  case 0
  then show ?case by simp
next
  case (Suc k)
  let ?n = "length (accounts m)"
  let ?i = "current_account_index m"
  let ?a = "lazy_reset (ymd (clock w (ticks w))) (accounts m ! ?i)"
  let ?m2 = "m\<lparr>current_account_index := (?i + 1) mod ?n,
               accounts := (accounts m)[?i := ?a]\<rparr>"
  let ?w1 = "w\<lparr>ticks := Suc (ticks w)\<rparr>"
  from Suc.prems have in_range: "?i < ?n"
    by (simp add: Let_def split: if_splits)
  have "username ?a = username (accounts m ! ?i)"
    by (simp add: lazy_reset_def)
  with in_range have same: "map username (accounts ?m2) = map username (accounts m)"
    by (simp add: map_update list_update_same_conv)
  show ?case
  proof (cases "eligible ?a")
    case True
    with Suc.prems in_range have "m' = ?m2"
      by (auto simp: Let_def now_def)
    with same show ?thesis
      by simp
  next
    case False
    with Suc.prems in_range have "select_loop k ?m2 ?w1 = Inr (r, m', w')"
      by (simp add: Let_def now_def)
    from Suc.IH [OF this] same show ?thesis
      by simp
  qed
qed




section \<open>One call of the selection\<close>

lemma select_loop_Inl:
  "select_loop k m w = Inl e \<Longrightarrow> length (accounts m) \<le> current_account_index m"
  using select_loop_Inr [of m k w] by (cases "current_account_index m < length (accounts m)") auto

lemma select_loop_Suc_in_range:
  "select_loop (Suc k) m w = Inr (r, m', w') \<Longrightarrow> current_account_index m < length (accounts m)"
  by (simp add: Let_def split: if_splits)

lemma gaa_in_range:
  "get_available_account m w = Inr (r, m', w') \<Longrightarrow> accounts m \<noteq> [] \<Longrightarrow>
   current_account_index m < length (accounts m)"
proof -
  assume h: "get_available_account m w = Inr (r, m', w')" and ne: "accounts m \<noteq> []"
  from ne obtain k where k: "length (accounts m) = Suc k"
    by (cases "accounts m") simp_all
  with h ne have "select_loop (Suc k) m w = Inr (r, m', w')"
    by (simp add: get_available_account_def)
  then show ?thesis
    by (rule select_loop_Suc_in_range)
qed

lemma gaa_Inl:
  "get_available_account m w = Inl e \<Longrightarrow>
   accounts m \<noteq> [] \<and> length (accounts m) \<le> current_account_index m"
  by (auto simp: get_available_account_def dest: select_loop_Inl split: if_splits)

lemma gaa_Inr:
  "accounts m = [] \<or> current_account_index m < length (accounts m) \<Longrightarrow>
   \<exists>r m' w'. get_available_account m w = Inr (r, m', w')"
  using select_loop_Inr [of m "length (accounts m)" w]
  by (auto simp: get_available_account_def)

lemma gaa_world:
  "get_available_account m w = Inr (r, m', w') \<Longrightarrow> w' = w\<lparr>ticks := ticks w'\<rparr>"
  by (auto simp: get_available_account_def dest: select_loop_world split: if_splits)

lemma gaa_frame:
  assumes "get_available_account m w = Inr (r, m', w')"
  shows "calls w' = calls w" and "clock w' = clock w" and "upstream w' = upstream w"
proof -
  from gaa_world [OF assms] obtain t where "w' = w\<lparr>ticks := t\<rparr>"
    by blast
  then show "calls w' = calls w" and "clock w' = clock w" and "upstream w' = upstream w"
    by simp_all
qed

lemma gaa_ticks:
  "get_available_account m w = Inr (r, m', w') \<Longrightarrow>
   ticks w \<le> ticks w' \<and> ticks w' \<le> ticks w + length (accounts m)"
  by (auto simp: get_available_account_def dest: select_loop_ticks split: if_splits)

lemma gaa_length:
  "get_available_account m w = Inr (r, m', w') \<Longrightarrow> length (accounts m') = length (accounts m)"
  by (auto simp: get_available_account_def dest: select_loop_length split: if_splits)

lemma gaa_usernames:
  "get_available_account m w = Inr (r, m', w') \<Longrightarrow>
   map username (accounts m') = map username (accounts m)"
  by (auto simp: get_available_account_def dest: select_loop_usernames split: if_splits)

lemma gaa_cursor:
  assumes "get_available_account m w = Inr (r, m', w')" and "accounts m \<noteq> []"
  shows "current_account_index m' =
           (current_account_index m + (ticks w' - ticks w)) mod length (accounts m)"
    and "current_account_index m' < length (accounts m')"
proof -
  from assms have sel: "select_loop (length (accounts m)) m w = Inr (r, m', w')"
    by (simp add: get_available_account_def)
  from gaa_in_range [OF assms] have c: "current_account_index m < length (accounts m)" .
  from select_loop_cursor [OF sel c]
  show eq: "current_account_index m' =
           (current_account_index m + (ticks w' - ticks w)) mod length (accounts m)" .
  from assms(2) have "0 < length (accounts m)"
    by simp
  with eq gaa_length [OF assms(1)] show "current_account_index m' < length (accounts m')"
    by simp
qed

lemma gaa_None:
  assumes "get_available_account m w = Inr (None, m', w')"
  shows "ticks w' = ticks w + length (accounts m)"
    and "current_account_index m' = current_account_index m"
proof -
  show t: "ticks w' = ticks w + length (accounts m)"
    using assms by (auto simp: get_available_account_def dest: select_loop_None split: if_splits)
  show "current_account_index m' = current_account_index m"
  proof (cases "accounts m = []")
    case True
    with assms show ?thesis
      by (simp add: get_available_account_def)
  next
    case False
    from gaa_cursor(1) [OF assms False] t gaa_in_range [OF assms False] show ?thesis
      by simp
  qed
qed

lemma last_examined_after:
  fixes p n :: nat
  assumes "p < n"
  shows "((p + 1) mod n + n - 1) mod n = p"
proof (cases "p + 1 < n")
  case True
  then have "(p + 1) mod n = p + 1"
    by (rule mod_less)
  then have "(p + 1) mod n + n - 1 = p + n"
    by arith
  with assms show ?thesis
    by simp
next
  case False
  with assms have n: "n = p + 1"
    by simp
  then have "(p + 1) mod n + n - 1 = p"
    by simp
  with assms show ?thesis
    by simp
qed

lemma gaa_Some:
  assumes "get_available_account m w = Inr (Some p, m', w')"
  shows "p < length (accounts m')" and "eligible (accounts m' ! p)"
    and "current_account_index m' = (p + 1) mod length (accounts m')"
    and "last_examined m' = p"
    and "ticks w < ticks w'"
    and "p = (current_account_index m + (ticks w' - Suc (ticks w))) mod length (accounts m)"
proof -
  from assms have ne: "accounts m \<noteq> []"
    by (auto simp: get_available_account_def split: if_splits)
  with assms have sel: "select_loop (length (accounts m)) m w = Inr (Some p, m', w')"
    by (simp add: get_available_account_def)
  note len = gaa_length [OF assms]
  note some = select_loop_Some [OF sel]
  from some [THEN conjunct2, THEN conjunct1] len show p: "p < length (accounts m')"
    by simp
  from some [THEN conjunct2, THEN conjunct2, THEN conjunct2] show "eligible (accounts m' ! p)" .
  from some [THEN conjunct1] show lt: "ticks w < ticks w'" .
  from some [THEN conjunct2, THEN conjunct2, THEN conjunct1]
  show pos: "p = (current_account_index m + (ticks w' - Suc (ticks w))) mod length (accounts m)" .
  from lt have "current_account_index m + (ticks w' - ticks w)
      = current_account_index m + (ticks w' - Suc (ticks w)) + 1"
    by arith
  with gaa_cursor(1) [OF assms ne]
  have "current_account_index m' =
      (current_account_index m + (ticks w' - Suc (ticks w)) + 1) mod length (accounts m)"
    by (simp only:)
  also have "\<dots> = ((current_account_index m + (ticks w' - Suc (ticks w))) mod length (accounts m) + 1)
      mod length (accounts m)"
    by (simp add: mod_Suc_eq)
  finally show cur: "current_account_index m' = (p + 1) mod length (accounts m')"
    using pos len by simp
  from last_examined_after [OF p] cur show "last_examined m' = p"
    by (simp add: last_examined_def)
qed

lemma gaa_examined:
  assumes "get_available_account m w = Inr (r, m', w')" and "j < ticks w' - ticks w"
  shows "accounts m' ! ((current_account_index m + j) mod length (accounts m)) =
     lazy_reset (ymd (clock w (ticks w + j)))
       (accounts m ! ((current_account_index m + j) mod length (accounts m)))"
proof -
  from assms have "accounts m \<noteq> []"
    by (auto simp: get_available_account_def split: if_splits)
  with assms(1) have "select_loop (length (accounts m)) m w = Inr (r, m', w')"
    by (simp add: get_available_account_def)
  from select_loop_examined [OF this _ assms(2)] show ?thesis
    by simp
qed








section \<open>The attempt loop\<close>

lemma increment_simps:
  "current_account_index (increment p m) = current_account_index m"
  "length (accounts (increment p m)) = length (accounts m)"
  "last_examined (increment p m) = last_examined m"
  by (simp_all add: increment_def last_examined_def)

lemma increment_usernames:
  "map username (accounts (increment p m)) = map username (accounts m)"
proof (cases "p < length (accounts m)")
  case True
  then show ?thesis
    by (simp add: increment_def map_update list_update_same_conv)
next
  case False
  then show ?thesis
    by (simp add: increment_def list_update_beyond)
qed

lemma shorten_loop_Cons_None:
  assumes "get_available_account m w = Inr (None, m1, w1)"
  shows "shorten_loop (a # rest) u m w =
     Inr (failure u [] (isoformat (clock w1 (ticks w1))) ''No available accounts'',
          m1, w1\<lparr>ticks := Suc (ticks w1)\<rparr>)"
  using assms by (simp add: now_def)

lemma shorten_loop_Cons_cases:
  assumes "get_available_account m w = Inr (Some p, m1, w1)"
    and "shorten_loop (a # rest) u m w = Inr (r, m', w')"
  shows "(\<exists>m2. (m2 = m1 \<or> m2 = increment p m1) \<and>
            shorten_loop rest u m2 (w1\<lparr>calls := Suc (calls w1)\<rparr>) = Inr (r, m', w')) \<or>
         (\<exists>m2. (m2 = m1 \<or> m2 = increment p m1) \<and> m' = m2 \<and>
            w' = w1\<lparr>calls := Suc (calls w1), ticks := Suc (ticks w1)\<rparr> \<and>
            account_used r = username (accounts m1 ! p) \<and> original_url r = u)"
  using assms
  by (auto simp: Let_def post_def now_def on_exception_def failure_def
      split: reply.splits payload.splits if_splits)

lemma shorten_loop_ConsE [consumes 1, case_names none continue return]:
  assumes "shorten_loop (a # rest) u m w = Inr (r, m', w')"
  obtains
    (none) m1 w1 where "get_available_account m w = Inr (None, m1, w1)"
      and "r = failure u [] (isoformat (clock w1 (ticks w1))) ''No available accounts''"
      and "m' = m1" and "w' = w1\<lparr>ticks := Suc (ticks w1)\<rparr>"
  | (continue) p m1 w1 m2 where "get_available_account m w = Inr (Some p, m1, w1)"
      and "m2 = m1 \<or> m2 = increment p m1"
      and "shorten_loop rest u m2 (w1\<lparr>calls := Suc (calls w1)\<rparr>) = Inr (r, m', w')"
  | (return) p m1 w1 where "get_available_account m w = Inr (Some p, m1, w1)"
      and "m' = m1 \<or> m' = increment p m1"
      and "w' = w1\<lparr>calls := Suc (calls w1), ticks := Suc (ticks w1)\<rparr>"
      and "account_used r = username (accounts m1 ! p)" and "original_url r = u"
proof (cases "get_available_account m w")
  case (Inl e)
  with assms show ?thesis
    by simp
next
  case (Inr x)
  then obtain ro m1 w1 where sel: "get_available_account m w = Inr (ro, m1, w1)"
    by (cases x) auto
  show ?thesis
  proof (cases ro)
    case None
    with sel assms shorten_loop_Cons_None [of m w m1 w1 a rest u] show ?thesis
      by (intro none [of m1 w1]) simp_all
  next
    case (Some p)
    with sel have sel': "get_available_account m w = Inr (Some p, m1, w1)"
      by simp
    from shorten_loop_Cons_cases [OF sel' assms] consider
      m2 where "m2 = m1 \<or> m2 = increment p m1"
        and "shorten_loop rest u m2 (w1\<lparr>calls := Suc (calls w1)\<rparr>) = Inr (r, m', w')"
    | "m' = m1 \<or> m' = increment p m1"
        and "w' = w1\<lparr>calls := Suc (calls w1), ticks := Suc (ticks w1)\<rparr>"
        and "account_used r = username (accounts m1 ! p)" and "original_url r = u"
      by blast
    then show ?thesis
    proof cases
      case 1
      with sel' show ?thesis
        by (rule continue)
    next
      case 2
      with sel' show ?thesis
        by (rule return)
    qed
  qed
qed

lemma shorten_loop_frame:
  "shorten_loop as u m w = Inr (r, m', w') \<Longrightarrow>
   clock w' = clock w \<and> upstream w' = upstream w \<and>
   calls w \<le> calls w' \<and> calls w' \<le> calls w + length as \<and>
   length (accounts m') = length (accounts m) \<and>
   map username (accounts m') = map username (accounts m) \<and> original_url r = u"
proof (induction as arbitrary: m w)
  case Nil
  then show ?case
    by (auto simp: now_def failure_def)
next
  case (Cons a rest)
  from Cons.prems show ?case
  proof (cases rule: shorten_loop_ConsE)
    case (none m1 w1)
    with gaa_frame [OF none(1)] gaa_length [OF none(1)] gaa_usernames [OF none(1)]
    show ?thesis
      by (simp add: failure_def)
  next
    case (continue p m1 w1 m2)
    from continue(2) have "length (accounts m2) = length (accounts m1)"
      and "map username (accounts m2) = map username (accounts m1)"
      by (auto simp: increment_simps increment_usernames)
    with Cons.IH [OF continue(3)] gaa_frame [OF continue(1)] gaa_length [OF continue(1)]
      gaa_usernames [OF continue(1)]
    show ?thesis
      by simp
  next
    case (return p m1 w1)
    from return(2) have "length (accounts m') = length (accounts m1)"
      and "map username (accounts m') = map username (accounts m1)"
      by (auto simp: increment_simps increment_usernames)
    with return(3,5) gaa_frame [OF return(1)] gaa_length [OF return(1)]
      gaa_usernames [OF return(1)]
    show ?thesis
      by simp
  qed
qed

lemma shorten_loop_cursor:
  "shorten_loop as u m w = Inr (r, m', w') \<Longrightarrow>
   current_account_index m < length (accounts m) \<Longrightarrow>
   current_account_index m' < length (accounts m')"
proof (induction as arbitrary: m w)
  case Nil
  then show ?case
    by (auto simp: now_def)
next
  case (Cons a rest)
  from Cons.prems(2) have ne: "accounts m \<noteq> []"
    by auto
  from Cons.prems(1) show ?case
  proof (cases rule: shorten_loop_ConsE)
    case (none m1 w1)
    with gaa_cursor(2) [OF none(1) ne] show ?thesis
      by simp
  next
    case (continue p m1 w1 m2)
    from continue(2) gaa_cursor(2) [OF continue(1) ne]
    have "current_account_index m2 < length (accounts m2)"
      by (auto simp: increment_simps)
    with Cons.IH [OF continue(3)] show ?thesis .
  next
    case (return p m1 w1)
    from return(2) gaa_cursor(2) [OF return(1) ne] show ?thesis
      by (auto simp: increment_simps)
  qed
qed

lemma shorten_loop_empty_pool:
  "accounts m = [] \<Longrightarrow>
   shorten_loop (a # rest) u m w =
     Inr (failure u [] (isoformat (clock w (ticks w))) ''No available accounts'',
          m, w\<lparr>ticks := Suc (ticks w)\<rparr>)"
  by (simp add: get_available_account_def now_def)

lemma shorten_loop_Inr:
  "accounts m = [] \<or> current_account_index m < length (accounts m) \<Longrightarrow>
   \<exists>r m' w'. shorten_loop as u m w = Inr (r, m', w')"
proof (induction as arbitrary: m w)
  case Nil
  show ?case
    by (simp add: now_def)
next
  case (Cons a rest)
  from gaa_Inr [OF Cons.prems] obtain ro m1 w1
    where sel: "get_available_account m w = Inr (ro, m1, w1)"
    by blast
  show ?case
  proof (cases ro)
    case None
    with sel shorten_loop_Cons_None [of m w m1 w1 a rest u] show ?thesis
      by simp
  next
    case (Some p)
    with sel have ne: "accounts m \<noteq> []"
      by (auto simp: get_available_account_def split: if_splits)
    from gaa_cursor(2) [OF sel ne] have c1: "current_account_index m1 < length (accounts m1)" .
    then have c2: "current_account_index (increment p m1) < length (accounts (increment p m1))"
      by (simp add: increment_simps)
    let ?w2 = "w1\<lparr>calls := Suc (calls w1)\<rparr>"
    from Cons.IH [of m1 ?w2] c1 obtain r1 m1' w1'
      where x1: "shorten_loop rest u m1 ?w2 = Inr (r1, m1', w1')"
      by auto
    from Cons.IH [of "increment p m1" ?w2] c2 obtain r2 m2' w2'
      where x2: "shorten_loop rest u (increment p m1) ?w2 = Inr (r2, m2', w2')"
      by auto
    from sel Some x1 x2 show ?thesis
      by (auto simp: Let_def post_def now_def on_exception_def
          split: reply.splits payload.splits)
  qed
qed

lemma shorten_loop_Inl:
  "shorten_loop as u m w = Inl e \<Longrightarrow>
   accounts m \<noteq> [] \<and> length (accounts m) \<le> current_account_index m"
  using shorten_loop_Inr [of m as u w]
  by (cases "accounts m = [] \<or> current_account_index m < length (accounts m)") auto

section \<open>Claims about the account pool\<close>



text \<open>
  C8. When the selection returns the account at position \<open>p\<close>, the date under which that
  account was examined is the last reading of the clock in the call. An account whose
  \<open>current_count\<close> has reached its \<open>daily_limit\<close> and whose \<open>last_reset\<close> is that date is
  not returned: if such an account is returned, its \<open>last_reset\<close> was stale, and the call
  has reset it.
\<close>

theorem exhausted_account_not_selected:
  assumes "get_available_account m w = Inr (Some p, m', w')"
    and "today = ymd (clock w (ticks w' - 1))"
    and "daily_limit (accounts m ! p) \<le> current_count (accounts m ! p)"
  shows "last_reset (accounts m ! p) \<noteq> today \<and>
         current_count (accounts m' ! p) = 0 \<and> last_reset (accounts m' ! p) = today"
proof -
  note some = gaa_Some [OF assms(1)]
  let ?j = "ticks w' - Suc (ticks w)"
  from some(5) have j: "?j < ticks w' - ticks w" and t: "ticks w + ?j = ticks w' - 1"
    by simp_all
  from gaa_examined [OF assms(1) j] some(6) t assms(2)
  have post: "accounts m' ! p = lazy_reset today (accounts m ! p)"
    by simp
  with some(2) have "eligible (lazy_reset today (accounts m ! p))"
    by simp
  with assms(3) have stale: "last_reset (accounts m ! p) \<noteq> today"
    by (auto simp: lazy_reset_def eligible_def split: if_splits)
  with post show ?thesis
    by (simp add: lazy_reset_def)
qed

theorem exhausted_account_not_selected_witness:
  "case get_available_account (BitlyAPIManager_init [carol, bob]) (stub (always (Raised []))) of
     Inl e \<Rightarrow> False
   | Inr (r, m', w') \<Rightarrow>
       r = Some 1 \<and>
       daily_limit (accounts (BitlyAPIManager_init [carol, bob]) ! 1)
         \<le> current_count (accounts (BitlyAPIManager_init [carol, bob]) ! 1) \<and>
       last_reset (accounts (BitlyAPIManager_init [carol, bob]) ! 1) \<noteq> ''2024-01-02'' \<and>
       current_count (accounts m' ! 1) = 0 \<and> last_reset (accounts m' ! 1) = ''2024-01-02''"
proof -
  let ?m = "BitlyAPIManager_init [carol, bob]"
  let ?w = "stub (always (Raised []))"
  have run: "case get_available_account ?m ?w of
     Inl e \<Rightarrow> False | Inr (r, m', w') \<Rightarrow> r = Some 1 \<and> ticks w' = 2"
    by code_simp
  then obtain r m' w' where res: "get_available_account ?m ?w = Inr (Some 1, m', w')"
    and t: "ticks w' = 2"
    by (auto split: sum.splits)
  have w: "ymd (clock ?w 1) = ''2024-01-02''"
    by (simp add: stub_def noon_def)
  have m: "daily_limit (accounts ?m ! 1) \<le> current_count (accounts ?m ! 1)"
    by (simp add: BitlyAPIManager_init_def bob_def)
  from exhausted_account_not_selected [OF res _ m, of "''2024-01-02''"] w t
  have "last_reset (accounts ?m ! 1) \<noteq> ''2024-01-02'' \<and>
         current_count (accounts m' ! 1) = 0 \<and> last_reset (accounts m' ! 1) = ''2024-01-02''"
    by simp
  with res m show ?thesis
    by simp
qed

lemma attempts: "[0..<max_retries] = [0, 1, 2]"
  by (simp add: max_retries_def upt_conv_Cons)



text \<open>
  C6. When the selection returns \<open>None\<close>, \<^verbatim>\<open>shorten_url\<close> returns at once, at whatever
  attempt and whatever attempts remain: the failure \<^verbatim>\<open>"No available accounts"\<close> with empty
  \<^verbatim>\<open>account_used\<close>, the pool as the selection left it, and no upstream call made.
\<close>

theorem no_available_accounts:
  assumes "get_available_account m w = Inr (None, m1, w1)"
  shows "shorten_loop (attempt # rest) long_url m w =
           Inr (\<lparr>original_url = long_url, short_url = [], account_used = [],
                 timestamp = isoformat (clock w1 (ticks w1)), success = False,
                 error_message = ''No available accounts''\<rparr>,
                m1, w1\<lparr>ticks := Suc (ticks w1)\<rparr>) \<and>
         shorten_url m long_url w = shorten_loop (0 # [1, 2]) long_url m w \<and>
         calls (w1\<lparr>ticks := Suc (ticks w1)\<rparr>) = calls w"
proof (intro conjI)
  from shorten_loop_Cons_None [OF assms]
  show "shorten_loop (attempt # rest) long_url m w =
           Inr (\<lparr>original_url = long_url, short_url = [], account_used = [],
                 timestamp = isoformat (clock w1 (ticks w1)), success = False,
                 error_message = ''No available accounts''\<rparr>,
                m1, w1\<lparr>ticks := Suc (ticks w1)\<rparr>)"
    by (simp add: failure_def)
  show "shorten_url m long_url w = shorten_loop (0 # [1, 2]) long_url m w"
    by (simp only: shorten_url_def attempts)
  from gaa_frame(1) [OF assms] show "calls (w1\<lparr>ticks := Suc (ticks w1)\<rparr>) = calls w"
    by simp
qed

theorem no_available_accounts_witness:
  "(case get_available_account (BitlyAPIManager_init [carol, dave]) (stub (always (Response 200 (Link ''l'')))) of
      Inl e \<Rightarrow> False | Inr (r, m1, w1) \<Rightarrow> r = None) \<and>
   (case shorten_url (BitlyAPIManager_init [carol, dave]) ''https://example.com''
           (stub (always (Response 200 (Link ''l'')))) of
      Inl e \<Rightarrow> False
    | Inr (res, m', w') \<Rightarrow>
        \<not> success res \<and> error_message res = ''No available accounts'' \<and> account_used res = [] \<and>
        calls w' = 0)"
proof -
  let ?m = "BitlyAPIManager_init [carol, dave]"
  let ?w = "stub (always (Response 200 (Link ''l'')))"
  have run: "case get_available_account ?m ?w of Inl e \<Rightarrow> False | Inr (r, m1, w1) \<Rightarrow> r = None"
    by code_simp
  then obtain m1 w1 where res: "get_available_account ?m ?w = Inr (None, m1, w1)"
    by (auto split: sum.splits)
  have "calls ?w = 0"
    by (simp add: stub_def)
  with no_available_accounts [OF res, of 0 "[1, 2]" "''https://example.com''"] run show ?thesis
    by simp
qed

lemma shorten_url_cursor:
  assumes "shorten_url m u w = Inr (res, m', w')"
    and "accounts m = [] \<or> current_account_index m < length (accounts m)"
  shows "accounts m' = [] \<or> current_account_index m' < length (accounts m')"
proof (cases "accounts m = []")
  case True
  from assms(1) have "shorten_loop (0 # [1, 2]) u m w = Inr (res, m', w')"
    by (simp only: shorten_url_def attempts)
  with shorten_loop_empty_pool [OF True, of 0 "[1, 2]" u w] True show ?thesis
    by simp
next
  case False
  with assms(2) have "current_account_index m < length (accounts m)"
    by simp
  with assms(1) show ?thesis
    unfolding shorten_url_def by (auto dest: shorten_loop_cursor)
qed

lemma gaa_cursor_ok:
  assumes "get_available_account m w = Inr (r, m', w')"
  shows "accounts m' = [] \<or> current_account_index m' < length (accounts m')"
proof (cases "accounts m = []")
  case True
  with assms show ?thesis
    by (simp add: get_available_account_def)
next
  case False
  from gaa_cursor(2) [OF assms False] show ?thesis
    by simp
qed

lemma reachable_cursor:
  "reachable m \<Longrightarrow> accounts m = [] \<or> current_account_index m < length (accounts m)"
proof (induction rule: reachable.induct)
  case (init accs)
  show ?case
    by (cases accs) (simp_all add: BitlyAPIManager_init_def)
next
  case (select m w r m' w')
  from gaa_cursor_ok [OF select(2)] show ?case .
next
  case (shorten m long_url w res m' w')
  from shorten_url_cursor [OF shorten(2) shorten(3)] show ?case .
qed

text \<open>
  C10. In every pool state a process can reach with a non-empty pool, the cursor is a
  position of the pool. So the selection never reads the account list out of range: it
  returns, with the cursor again inside the pool, and when it returns \<open>None\<close> it has examined
  every account once and the cursor is where it was. \<^verbatim>\<open>shorten_url\<close> returns too, with the
  cursor inside the pool.
\<close>

theorem cursor_in_bounds:
  assumes "reachable m" and "accounts m \<noteq> []"
  shows "current_account_index m < length (accounts m) \<and>
         (\<forall>w. \<exists>r m' w'. get_available_account m w = Inr (r, m', w') \<and>
            current_account_index m' < length (accounts m') \<and>
            (r = None \<longrightarrow> current_account_index m' = current_account_index m \<and>
                           ticks w' = ticks w + length (accounts m))) \<and>
         (\<forall>long_url w. \<exists>res m' w'. shorten_url m long_url w = Inr (res, m', w') \<and>
            current_account_index m' < length (accounts m'))"
proof (intro conjI allI)
  from reachable_cursor [OF assms(1)] assms(2)
  show c: "current_account_index m < length (accounts m)"
    by simp
  fix w
  from gaa_Inr [of m w] c obtain r m' w' where res: "get_available_account m w = Inr (r, m', w')"
    by blast
  from gaa_cursor(2) [OF res assms(2)] have "current_account_index m' < length (accounts m')" .
  moreover have "current_account_index m' = current_account_index m \<and>
      ticks w' = ticks w + length (accounts m)" if "r = None"
    using gaa_None [of m w m' w'] res that by simp
  ultimately show "\<exists>r m' w'. get_available_account m w = Inr (r, m', w') \<and>
            current_account_index m' < length (accounts m') \<and>
            (r = None \<longrightarrow> current_account_index m' = current_account_index m \<and>
                           ticks w' = ticks w + length (accounts m))"
    using res by blast
next
  fix long_url w
  from reachable_cursor [OF assms(1)] assms(2)
  have c: "current_account_index m < length (accounts m)"
    by simp
  from shorten_loop_Inr [of m "[0..<max_retries]" long_url w] c obtain res m' w'
    where res: "shorten_url m long_url w = Inr (res, m', w')"
    unfolding shorten_url_def by blast
  then have "shorten_loop [0..<max_retries] long_url m w = Inr (res, m', w')"
    by (simp only: shorten_url_def)
  from shorten_loop_cursor [OF this c] res
  show "\<exists>res m' w'. shorten_url m long_url w = Inr (res, m', w') \<and>
            current_account_index m' < length (accounts m')"
    by blast
qed

theorem cursor_in_bounds_witness:
  "(case get_available_account (BitlyAPIManager_init [carol, bob, dave]) (stub (always (Raised []))) of
      Inl e \<Rightarrow> False
    | Inr (r, m', w') \<Rightarrow>
        reachable m' \<and> accounts m' \<noteq> [] \<and> current_account_index m' = 2 \<and>
        current_account_index m' < length (accounts m'))"
proof -
  let ?m = "BitlyAPIManager_init [carol, bob, dave]"
  let ?w = "stub (always (Raised []))"
  have run: "case get_available_account ?m ?w of
      Inl e \<Rightarrow> False
    | Inr (r, m', w') \<Rightarrow> current_account_index m' = 2 \<and> length (accounts m') = 3"
    by code_simp
  then obtain r m' w' where res: "get_available_account ?m ?w = Inr (r, m', w')"
    and m': "current_account_index m' = 2" "length (accounts m') = 3"
    by (auto split: sum.splits)
  have reach: "reachable m'"
    by (rule reachable.select [OF reachable.init res])
  from m' have ne: "accounts m' \<noteq> []"
    by auto
  from cursor_in_bounds [OF reach ne, THEN conjunct1] res reach ne m' show ?thesis
    by simp
qed

section \<open>Claims about the dispatcher\<close>













lemma shorten_loop_account_used:
  "shorten_loop as u m w = Inr (r, m', w') \<Longrightarrow>
   account_used r = [] \<and> \<not> success r \<and>
     (error_message r = ''No available accounts'' \<or> error_message r = ''Max retries exceeded'') \<or>
   calls w < calls w' \<and> last_examined m' < length (accounts m') \<and>
     account_used r = username (accounts m' ! last_examined m')"
proof (induction as arbitrary: m w)
  case Nil
  then show ?case
    by (auto simp: now_def failure_def)
next
  case (Cons a rest)
  from Cons.prems show ?case
  proof (cases rule: shorten_loop_ConsE)
    case (none m1 w1)
    then show ?thesis
      by (simp add: failure_def)
  next
    case (continue p m1 w1 m2)
    from shorten_loop_frame [OF continue(3)] gaa_frame(1) [OF continue(1)]
    have "calls w < calls w'"
      by simp
    with Cons.IH [OF continue(3)] show ?thesis
      by blast
  next
    case (return p m1 w1)
    note some = gaa_Some [OF return(1)]
    from return(2) some(4) have le: "last_examined m' = p"
      by (auto simp: increment_simps)
    from return(2) some(1) have p: "p < length (accounts m')"
      by (auto simp: increment_simps)
    from return(2) have "map username (accounts m') = map username (accounts m1)"
      by (auto simp: increment_usernames)
    then have "map username (accounts m') ! p = map username (accounts m1) ! p"
      by simp
    with p some(1) have "username (accounts m' ! p) = username (accounts m1 ! p)"
      by simp
    with return(3,4) gaa_frame(1) [OF return(1)] le p show ?thesis
      by simp
  qed
qed

lemma shorten_loop_no_call:
  assumes "shorten_loop (a # rest) u m w = Inr (r, m', w')" and "calls w' = calls w"
  shows "account_used r = [] \<and> error_message r = ''No available accounts''"
  using assms(1)
proof (cases rule: shorten_loop_ConsE)
  case (none m1 w1)
  then show ?thesis
    by (simp add: failure_def)
next
  case (continue p m1 w1 m2)
  from shorten_loop_frame [OF continue(3)] gaa_frame(1) [OF continue(1)] assms(2)
  show ?thesis
    by simp
next
  case (return p m1 w1)
  with gaa_frame(1) [OF return(1)] assms(2) show ?thesis
    by simp
qed

text \<open>
  C3 (as amended). The \<^verbatim>\<open>account_used\<close> of an outcome is empty when no account was selected
  during the call (no upstream call was made), and also in the two failures that the code
  returns with an empty name whatever was selected before: \<^verbatim>\<open>"No available accounts"\<close> at a
  later attempt and \<^verbatim>\<open>"Max retries exceeded"\<close>. Every other outcome carries the name of the
  account selected last, which is a name of the pool.
\<close>

theorem account_used_of_outcome:
  assumes "shorten_url m long_url w = Inr (res, m', w')"
  shows "(calls w' = calls w \<longrightarrow>
            account_used res = [] \<and> error_message res = ''No available accounts'') \<and>
         (account_used res = [] \<and> \<not> success res \<and>
            (error_message res = ''No available accounts'' \<or>
             error_message res = ''Max retries exceeded'') \<or>
          calls w < calls w' \<and>
            account_used res = username (accounts m' ! last_examined m') \<and>
            account_used res \<in> username ` set (accounts m))"
proof -
  from assms have run: "shorten_loop (0 # [1, 2]) long_url m w = Inr (res, m', w')"
    by (simp only: shorten_url_def attempts)
  have first: "account_used res = [] \<and> error_message res = ''No available accounts''"
    if "calls w' = calls w"
    using shorten_loop_no_call [OF run that] .
  from shorten_loop_account_used [OF run] consider
    "account_used res = [] \<and> \<not> success res \<and>
       (error_message res = ''No available accounts'' \<or>
        error_message res = ''Max retries exceeded'')"
  | "calls w < calls w'" and "last_examined m' < length (accounts m')"
      and "account_used res = username (accounts m' ! last_examined m')"
    by blast
  then have second: "account_used res = [] \<and> \<not> success res \<and>
            (error_message res = ''No available accounts'' \<or>
             error_message res = ''Max retries exceeded'') \<or>
          calls w < calls w' \<and>
            account_used res = username (accounts m' ! last_examined m') \<and>
            account_used res \<in> username ` set (accounts m)"
  proof cases
    case 1
    then show ?thesis by blast
  next
    case 2
    from 2(2,3) have "account_used res \<in> set (map username (accounts m'))"
      by simp
    with shorten_loop_frame [OF run] have "account_used res \<in> username ` set (accounts m)"
      by simp
    with 2 show ?thesis by blast
  qed
  from first second show ?thesis
    by blast
qed

theorem account_used_of_outcome_witness:
  "case shorten_url (BitlyAPIManager_init [dave, alice]) ''https://example.com''
          (stub (always (Response 201 (Link ''https://bit.ly/abc'')))) of
     Inl e \<Rightarrow> False
   | Inr (res, m', w') \<Rightarrow>
       calls w' = 1 \<and> success res \<and> account_used res = ''alice'' \<and>
       account_used res = username (accounts m' ! last_examined m')"
proof -
  let ?m = "BitlyAPIManager_init [dave, alice]"
  let ?w = "stub (always (Response 201 (Link ''https://bit.ly/abc'')))"
  have "case shorten_url ?m ''https://example.com'' ?w of
     Inl e \<Rightarrow> False
   | Inr (res, m', w') \<Rightarrow> calls w' = 1 \<and> success res \<and> account_used res = ''alice''"
    by code_simp
  then obtain res m' w' where res: "shorten_url ?m ''https://example.com'' ?w = Inr (res, m', w')"
    and out: "calls w' = 1" "success res" "account_used res = ''alice''"
    by (auto split: sum.splits)
  from account_used_of_outcome [OF res, THEN conjunct2] out(2)
  have "account_used res = username (accounts m' ! last_examined m')"
    by blast
  with res out show ?thesis
    by simp
qed

theorem account_used_empty_after_selection:
  "case shorten_url (BitlyAPIManager_init [alice, bob]) ''https://example.com''
          (stub (always (Response 429 (NotJson [])))) of
     Inl e \<Rightarrow> False
   | Inr (res, m', w') \<Rightarrow> calls w' = 3 \<and> ticks w' = 4 \<and> account_used res = []"
  by code_simp

text \<open>
  C1 (the code at the failing input). An upstream that answers 200 with a body that is JSON
  but has no \<^verbatim>\<open>link\<close>: the call fails, and the counter of the account, 0 before the call
  with \<^verbatim>\<open>last_reset\<close> the date of the day, is 3 after it.
\<close>

theorem counter_incremented_on_failure:
  "current_count alice = 0 \<and> last_reset alice = ymd (noon 0) \<and>
   (case shorten_url (BitlyAPIManager_init [alice]) ''https://example.com''
           (stub (always (Response 200 (NoLink key_error_link)))) of
      Inl e \<Rightarrow> False
    | Inr (res, m', w') \<Rightarrow>
        \<not> success res \<and> account_used res = ''alice'' \<and> calls w' = 3 \<and>
        map current_count (accounts m') = [3])"
proof -
  have "case shorten_url (BitlyAPIManager_init [alice]) ''https://example.com''
           (stub (always (Response 200 (NoLink key_error_link)))) of
      Inl e \<Rightarrow> False
    | Inr (res, m', w') \<Rightarrow>
        \<not> success res \<and> account_used res = ''alice'' \<and> calls w' = 3 \<and>
        map current_count (accounts m') = [3]"
    by code_simp
  then show ?thesis
    by (simp add: alice_def noon_def)
qed

section \<open>Claims about the bulk route\<close>

lemma shorten_loop_Cons_cursor_ok:
  assumes "shorten_loop (a # rest) u m w = Inr (r, m', w')"
  shows "accounts m' = [] \<or> current_account_index m' < length (accounts m')"
  using assms
proof (cases rule: shorten_loop_ConsE)
  case (none m1 w1)
  with gaa_cursor_ok [OF none(1)] show ?thesis
    by simp
next
  case (continue p m1 w1 m2)
  from gaa_cursor_ok [OF continue(1)] gaa_Some(1) [OF continue(1)]
  have "current_account_index m1 < length (accounts m1)"
    by auto
  with continue(2) have "current_account_index m2 < length (accounts m2)"
    by (auto simp: increment_simps)
  from shorten_loop_cursor [OF continue(3) this] show ?thesis
    by simp
next
  case (return p m1 w1)
  from gaa_cursor_ok [OF return(1)] gaa_Some(1) [OF return(1)]
  have "current_account_index m1 < length (accounts m1)"
    by auto
  with return(2) show ?thesis
    by (auto simp: increment_simps)
qed

lemma shorten_url_cursor_ok:
  assumes "shorten_url m u w = Inr (res, m', w')"
  shows "accounts m' = [] \<or> current_account_index m' < length (accounts m')"
proof -
  from assms have "shorten_loop (0 # [1, 2]) u m w = Inr (res, m', w')"
    by (simp only: shorten_url_def attempts)
  then show ?thesis
    by (rule shorten_loop_Cons_cursor_ok)
qed

lemma shorten_url_Inr:
  "accounts m = [] \<or> current_account_index m < length (accounts m) \<Longrightarrow>
   \<exists>res m' w'. shorten_url m u w = Inr (res, m', w') \<and> original_url res = u"
proof -
  assume "accounts m = [] \<or> current_account_index m < length (accounts m)"
  from shorten_loop_Inr [OF this, of "[0..<max_retries]" u w] obtain res m' w'
    where run: "shorten_loop [0..<max_retries] u m w = Inr (res, m', w')"
    by blast
  from shorten_loop_frame [OF run] run show ?thesis
    by (simp add: shorten_url_def)
qed

lemma shorten_url_Inl:
  "shorten_url m u w = Inl e \<Longrightarrow>
   accounts m \<noteq> [] \<and> length (accounts m) \<le> current_account_index m"
  unfolding shorten_url_def by (rule shorten_loop_Inl)

lemma bulk_loop_Inl:
  "bulk_loop urls m w = Inl e \<Longrightarrow>
   accounts m \<noteq> [] \<and> length (accounts m) \<le> current_account_index m"
proof (induction urls arbitrary: m w)
  case Nil
  then show ?case by simp
next
  case (Cons url urls)
  show ?case
  proof (cases "shorten_url m (normalize_url url) w")
    case (Inl e')
    then show ?thesis
      by (rule shorten_url_Inl)
  next
    case (Inr x)
    then obtain res m1 w1 where one: "shorten_url m (normalize_url url) w = Inr (res, m1, w1)"
      by (cases x) auto
    with Cons.prems have "bulk_loop urls m1 w1 = Inl e"
      by (simp split: sum.splits prod.splits)
    from Cons.IH [OF this] shorten_url_cursor_ok [OF one] show ?thesis
      by simp
  qed
qed

lemma bulk_loop_Inr:
  "accounts m = [] \<or> current_account_index m < length (accounts m) \<Longrightarrow>
   \<exists>rs m' w'. bulk_loop urls m w = Inr (rs, m', w') \<and> length rs = length urls \<and>
      map j_original_url rs = map normalize_url urls"
proof (induction urls arbitrary: m w)
  case Nil
  show ?case by simp
next
  case (Cons url urls)
  from shorten_url_Inr [OF Cons.prems, of "normalize_url url" w] obtain res m1 w1
    where one: "shorten_url m (normalize_url url) w = Inr (res, m1, w1)"
      and url: "original_url res = normalize_url url"
    by blast
  from Cons.IH [OF shorten_url_cursor_ok [OF one], of w1] obtain rs m' w'
    where rest: "bulk_loop urls m1 w1 = Inr (rs, m', w')" and len: "length rs = length urls"
      and urls: "map j_original_url rs = map normalize_url urls"
    by blast
  from one url rest len urls show ?case
    by (simp add: to_json_def)
qed

lemma bulk_loop_append:
  "bulk_loop (xs @ ys) m w =
     (case bulk_loop xs m w of
        Inl err \<Rightarrow> Inl err
      | Inr (rs, m1, w1) \<Rightarrow>
          (case bulk_loop ys m1 w1 of
             Inl err \<Rightarrow> Inl err
           | Inr (rs', m2, w2) \<Rightarrow> Inr (rs @ rs', m2, w2)))"
  by (induction xs arbitrary: m w) (auto split: sum.splits)

lemma bulk_loop_nth:
  assumes "bulk_loop urls m w = Inr (results, m', w')" and "i < length urls"
    and ok: "accounts m = [] \<or> current_account_index m < length (accounts m)"
  shows "\<exists>rs m1 w1 res m2 w2. bulk_loop (take i urls) m w = Inr (rs, m1, w1) \<and>
           shorten_url m1 (normalize_url (urls ! i)) w1 = Inr (res, m2, w2) \<and>
           results ! i = to_json res"
proof -
  from assms(2) have split: "urls = take i urls @ (urls ! i # drop (Suc i) urls)"
    by (simp add: id_take_nth_drop [symmetric])
  from assms(1) have "bulk_loop (take i urls @ (urls ! i # drop (Suc i) urls)) m w
      = Inr (results, m', w')"
    using split by simp
  then obtain rs m1 w1 rs' where pre: "bulk_loop (take i urls) m w = Inr (rs, m1, w1)"
    and post: "bulk_loop (urls ! i # drop (Suc i) urls) m1 w1 = Inr (rs', m', w')"
    and all: "results = rs @ rs'"
    unfolding bulk_loop_append by (auto split: sum.splits)
  from post obtain res m2 w2 rs'' where one: "shorten_url m1 (normalize_url (urls ! i)) w1 = Inr (res, m2, w2)"
    and rs': "rs' = to_json res # rs''"
    by (auto split: sum.splits)
  from bulk_loop_Inr [OF ok, of "take i urls" w] pre assms(2) have "length rs = i"
    by auto
  with all rs' have "results ! i = to_json res"
    by (auto simp: nth_append)
  with pre one show ?thesis
    by blast
qed

lemma bulk_loop_take_Suc:
  assumes "bulk_loop (take i urls) m w = Inr (rs, m1, w1)"
    and "shorten_url m1 (normalize_url (urls ! i)) w1 = Inr (res, m2, w2)"
    and "i < length urls"
  shows "bulk_loop (take (Suc i) urls) m w = Inr (rs @ [to_json res], m2, w2)"
  using assms by (simp add: take_Suc_conv_app_nth bulk_loop_append)

text \<open>
  C9 (as amended). The bulk route tests the pool first and the list second. With an empty
  pool it answers \<^verbatim>\<open>"No accounts configured"\<close> with status 500, whatever the list; with a
  non-empty pool and an empty list it answers \<^verbatim>\<open>"URLs required"\<close> with status 400; in both
  cases nothing is changed and there are no counts. For a non-empty pool with the cursor
  inside it and a non-empty list of URLs, it returns one result per URL, in input order:
  the \<open>i\<close>-th result is what \<^verbatim>\<open>shorten_url\<close> returns for the \<open>i\<close>-th URL (stripped, and with
  \<^verbatim>\<open>https://\<close> in front when it has no scheme) in the state the first \<open>i\<close> URLs have left,
  whether those succeeded or not, and the state it leaves is the one the next URL starts
  from. \<^verbatim>\<open>total\<close> is the length of the list, \<^verbatim>\<open>successful\<close> the number of results with
  \<^verbatim>\<open>success\<close>, \<^verbatim>\<open>failed\<close> their difference.
\<close>

theorem shorten_bulk_aggregates:
  "(accounts m = [] \<longrightarrow>
      shorten_bulk m urls w = (Error ''No accounts configured'' 500, m, w)) \<and>
   (accounts m \<noteq> [] \<longrightarrow>
      shorten_bulk m [] w = (Error ''URLs required'' 400, m, w)) \<and>
   (accounts m \<noteq> [] \<and> current_account_index m < length (accounts m) \<and> urls \<noteq> [] \<longrightarrow>
      (\<exists>body m' w'. shorten_bulk m urls w = (Ok body, m', w') \<and>
           bulk_loop urls m w = Inr (b_results body, m', w') \<and>
           length (b_results body) = length urls \<and>
           map j_original_url (b_results body) = map normalize_url urls \<and>
           (\<forall>i < length urls. \<exists>rs m1 w1 res m2 w2.
              bulk_loop (take i urls) m w = Inr (rs, m1, w1) \<and>
              shorten_url m1 (normalize_url (urls ! i)) w1 = Inr (res, m2, w2) \<and>
              bulk_loop (take (Suc i) urls) m w = Inr (rs @ [to_json res], m2, w2) \<and>
              b_results body ! i = to_json res) \<and>
           b_total body = int (length urls) \<and>
           b_successful body = int (length (filter j_success (b_results body))) \<and>
           b_failed body = b_total body - b_successful body))"
proof (intro conjI)
  show "accounts m = [] \<longrightarrow>
      shorten_bulk m urls w = (Error ''No accounts configured'' 500, m, w)"
    by (simp add: shorten_bulk_def)
  show "accounts m \<noteq> [] \<longrightarrow> shorten_bulk m [] w = (Error ''URLs required'' 400, m, w)"
    by (simp add: shorten_bulk_def)
  show "accounts m \<noteq> [] \<and> current_account_index m < length (accounts m) \<and> urls \<noteq> [] \<longrightarrow>
      (\<exists>body m' w'. shorten_bulk m urls w = (Ok body, m', w') \<and>
           bulk_loop urls m w = Inr (b_results body, m', w') \<and>
           length (b_results body) = length urls \<and>
           map j_original_url (b_results body) = map normalize_url urls \<and>
           (\<forall>i < length urls. \<exists>rs m1 w1 res m2 w2.
              bulk_loop (take i urls) m w = Inr (rs, m1, w1) \<and>
              shorten_url m1 (normalize_url (urls ! i)) w1 = Inr (res, m2, w2) \<and>
              bulk_loop (take (Suc i) urls) m w = Inr (rs @ [to_json res], m2, w2) \<and>
              b_results body ! i = to_json res) \<and>
           b_total body = int (length urls) \<and>
           b_successful body = int (length (filter j_success (b_results body))) \<and>
           b_failed body = b_total body - b_successful body)"
  proof
    assume h: "accounts m \<noteq> [] \<and> current_account_index m < length (accounts m) \<and> urls \<noteq> []"
    then have ok: "accounts m = [] \<or> current_account_index m < length (accounts m)"
      by simp
    from bulk_loop_Inr [OF ok, of urls w] obtain rs m' w'
      where run: "bulk_loop urls m w = Inr (rs, m', w')" and len: "length rs = length urls"
        and urls: "map j_original_url rs = map normalize_url urls"
      by blast
    let ?body = "\<lparr>b_total = int (length rs),
        b_successful = int (length (filter j_success rs)),
        b_failed = int (length rs) - int (length (filter j_success rs)), b_results = rs\<rparr>"
    from h run have res: "shorten_bulk m urls w = (Ok ?body, m', w')"
      by (simp add: shorten_bulk_def Let_def)
    have each: "\<forall>i < length urls. \<exists>rs' m1 w1 res m2 w2.
                bulk_loop (take i urls) m w = Inr (rs', m1, w1) \<and>
                shorten_url m1 (normalize_url (urls ! i)) w1 = Inr (res, m2, w2) \<and>
                bulk_loop (take (Suc i) urls) m w = Inr (rs' @ [to_json res], m2, w2) \<and>
                b_results ?body ! i = to_json res"
    proof (intro allI impI)
      fix i
      assume i: "i < length urls"
      from bulk_loop_nth [OF run i ok] obtain rs' m1 w1 res m2 w2
        where pre: "bulk_loop (take i urls) m w = Inr (rs', m1, w1)"
          and one: "shorten_url m1 (normalize_url (urls ! i)) w1 = Inr (res, m2, w2)"
          and nth: "rs ! i = to_json res"
        by blast
      from bulk_loop_take_Suc [OF pre one i] pre one nth
      show "\<exists>rs' m1 w1 res m2 w2.
                bulk_loop (take i urls) m w = Inr (rs', m1, w1) \<and>
                shorten_url m1 (normalize_url (urls ! i)) w1 = Inr (res, m2, w2) \<and>
                bulk_loop (take (Suc i) urls) m w = Inr (rs' @ [to_json res], m2, w2) \<and>
                b_results ?body ! i = to_json res"
        by auto
    qed
    from res each run len urls
    show "\<exists>body m' w'. shorten_bulk m urls w = (Ok body, m', w') \<and>
           bulk_loop urls m w = Inr (b_results body, m', w') \<and>
           length (b_results body) = length urls \<and>
           map j_original_url (b_results body) = map normalize_url urls \<and>
           (\<forall>i < length urls. \<exists>rs m1 w1 res m2 w2.
              bulk_loop (take i urls) m w = Inr (rs, m1, w1) \<and>
              shorten_url m1 (normalize_url (urls ! i)) w1 = Inr (res, m2, w2) \<and>
              bulk_loop (take (Suc i) urls) m w = Inr (rs @ [to_json res], m2, w2) \<and>
              b_results body ! i = to_json res) \<and>
           b_total body = int (length urls) \<and>
           b_successful body = int (length (filter j_success (b_results body))) \<and>
           b_failed body = b_total body - b_successful body"
      by (intro exI [of _ ?body] exI [of _ m'] exI [of _ w']) simp
  qed
qed

theorem shorten_bulk_rejects_empty_input:
  "fst (shorten_bulk (BitlyAPIManager_init [alice]) [] (stub flaky)) = Error ''URLs required'' 400 \<and>
   fst (shorten_bulk (BitlyAPIManager_init []) [''example.com''] (stub flaky))
     = Error ''No accounts configured'' 500 \<and>
   fst (shorten_bulk (BitlyAPIManager_init []) [] (stub flaky))
     = Error ''No accounts configured'' 500"
  by (simp add: shorten_bulk_def BitlyAPIManager_init_def)

theorem shorten_bulk_aggregates_witness:
  "(case shorten_bulk (BitlyAPIManager_init [alice, bob])
          [''example.com'', '' https://bad.example '', ''http://b.example''] (stub flaky) of
     (Ok body, m', w') \<Rightarrow>
        b_total body = 3 \<and> b_successful body = 2 \<and> b_failed body = 1 \<and>
        map j_success (b_results body) = [True, False, True] \<and>
        map j_original_url (b_results body) =
          [''https://example.com'', ''https://bad.example'', ''http://b.example'']
   | (Error msg status, m', w') \<Rightarrow> False) \<and>
   shorten_bulk (BitlyAPIManager_init [alice, bob]) [] (stub flaky)
     = (Error ''URLs required'' 400, BitlyAPIManager_init [alice, bob], stub flaky) \<and>
   shorten_bulk (BitlyAPIManager_init []) [''example.com''] (stub flaky)
     = (Error ''No accounts configured'' 500, BitlyAPIManager_init [], stub flaky)"
proof -
  let ?m = "BitlyAPIManager_init [alice, bob]"
  let ?urls = "[''example.com'', '' https://bad.example '', ''http://b.example'']"
  have norm: "map normalize_url ?urls =
      [''https://example.com'', ''https://bad.example'', ''http://b.example'']"
    by code_simp
  have run: "case shorten_bulk ?m ?urls (stub flaky) of
     (Ok body, m', w') \<Rightarrow> b_total body = 3 \<and> b_successful body = 2 \<and> b_failed body = 1 \<and>
        map j_success (b_results body) = [True, False, True]
   | (Error msg status, m', w') \<Rightarrow> False"
    by code_simp
  have m: "accounts ?m \<noteq> [] \<and> current_account_index ?m < length (accounts ?m) \<and> ?urls \<noteq> []"
    by (simp add: BitlyAPIManager_init_def)
  have ne: "accounts ?m \<noteq> []"
    by (simp add: BitlyAPIManager_init_def)
  have empty: "accounts (BitlyAPIManager_init []) = []"
    by (simp add: BitlyAPIManager_init_def)
  note inst = shorten_bulk_aggregates [of ?m ?urls "stub flaky"]
  from inst [THEN conjunct2, THEN conjunct2, rule_format, OF m] obtain body m' w'
    where res: "shorten_bulk ?m ?urls (stub flaky) = (Ok body, m', w')"
      and "map j_original_url (b_results body) = map normalize_url ?urls"
    by blast
  with norm run have first: "case shorten_bulk ?m ?urls (stub flaky) of
     (Ok body, m', w') \<Rightarrow>
        b_total body = 3 \<and> b_successful body = 2 \<and> b_failed body = 1 \<and>
        map j_success (b_results body) = [True, False, True] \<and>
        map j_original_url (b_results body) =
          [''https://example.com'', ''https://bad.example'', ''http://b.example'']
   | (Error msg status, m', w') \<Rightarrow> False"
    by simp
  from inst [THEN conjunct2, THEN conjunct1, rule_format, OF ne]
  have second: "shorten_bulk ?m [] (stub flaky) = (Error ''URLs required'' 400, ?m, stub flaky)" .
  from shorten_bulk_aggregates [of "BitlyAPIManager_init []" "[''example.com'']" "stub flaky",
      THEN conjunct1, rule_format, OF empty]
  have third: "shorten_bulk (BitlyAPIManager_init []) [''example.com''] (stub flaky)
     = (Error ''No accounts configured'' 500, BitlyAPIManager_init [], stub flaky)" .
  from first second third show ?thesis
    by (intro conjI)
qed

end
